theory Spec2Isabelle
  imports Main "HOL-Library.Multiset" "HOL-Library.Monad_Syntax"
begin

section \<open>Compile-time ranked-order sorting (sort.hpp)\<close>

text \<open>
  The header defines three helper templates and the entry point \<open>sort<N>(list)\<close>.
  Template parameter packs \<open>J...\<close> and \<open>I...\<close> are modelled as lists of naturals, a fold
  expression as recursion over that list, and pack expansion inside a braced initialiser
  as a list built element by element.

  Elements are of a linearly ordered type: \<open>list[I] >= list[J]\<close> is \<open>\<ge>\<close> and
  \<open>list[I] > list[J]\<close> is \<open>>\<close> of class \<open>linorder\<close>, as they are for the \<open>int\<close> of the
  header's usage example.

  Indices and ranks are \<open>size_t\<close> in the source and \<open>nat\<close> here. Every index the entry
  point produces is below \<open>N\<close>, every rank is a sum of at most \<open>N - 1\<close> truth values, and
  \<open>N - I - 1\<close> is only formed for \<open>I < N\<close>, so no value wraps around.

  \<open>operator[]\<close> does not check its index; reading or writing outside the object is
  undefined behaviour. The model makes every subscript a partial operation: the result
  \<open>None\<close> stands for an access outside the array.
\<close>

subsection \<open>Subscripts and index sequences\<close>

definition subscript :: "'a list \<Rightarrow> nat \<Rightarrow> 'a option" where
  "subscript a i = (if i < length a then Some (a ! i) else None)"

definition make_index_sequence :: "nat \<Rightarrow> nat list" where
  "make_index_sequence n = [0..<n]"

subsection \<open>The two rank passes\<close>

text \<open>
  \<open>sort_rank_l<I>(list, index_sequence<J...>)\<close> returns
  \<open>((list[I] >= list[J]) + ... + 0)\<close>, a binary right fold: the empty pack gives \<open>0\<close>
  without reading \<open>list\<close>.
\<close>

fun sort_rank_l :: "nat \<Rightarrow> 'a::linorder list \<Rightarrow> nat list \<Rightarrow> nat option" where
  "sort_rank_l I xs [] = Some 0"
| "sort_rank_l I xs (J # Js) = do {
     a \<leftarrow> subscript xs I;
     b \<leftarrow> subscript xs J;
     r \<leftarrow> sort_rank_l I xs Js;
     Some (of_bool (a \<ge> b) + r)
   }"

text \<open>
  \<open>sort_rank_u<I>(list, index_sequence<J...>)\<close> returns
  \<open>((list[I] > list[1+I+J]) + ... + 0)\<close>.
\<close>

fun sort_rank_u :: "nat \<Rightarrow> 'a::linorder list \<Rightarrow> nat list \<Rightarrow> nat option" where
  "sort_rank_u I xs [] = Some 0"
| "sort_rank_u I xs (J # Js) = do {
     a \<leftarrow> subscript xs I;
     b \<leftarrow> subscript xs (1 + I + J);
     r \<leftarrow> sort_rank_u I xs Js;
     Some (of_bool (a > b) + r)
   }"

subsection \<open>The implementation\<close>

text \<open>
  The initialiser of \<open>size_t rank[]\<close>: one entry
  \<open>sort_rank_l<I>(list, make_index_sequence<I>{}) +
   sort_rank_u<I>(list, make_index_sequence<N-I-1>{})\<close> for every \<open>I\<close> of the pack.
\<close>

fun rank_init :: "nat \<Rightarrow> 'a::linorder list \<Rightarrow> nat list \<Rightarrow> nat list option" where
  "rank_init N xs [] = Some []"
| "rank_init N xs (I # Is) = do {
     l \<leftarrow> sort_rank_l I xs (make_index_sequence I);
     u \<leftarrow> sort_rank_u I xs (make_index_sequence (N - I - 1));
     rs \<leftarrow> rank_init N xs Is;
     Some ((l + u) # rs)
   }"

text \<open>
  The variables of \<open>sort_impl\<close>: its parameter \<open>list\<close> (field \<open>input\<close>; the record
  package would otherwise claim the name of the list update), the local array \<open>rank\<close>
  and the local \<open>std::array\<close> \<open>response\<close>.
\<close>

record 'a frame =
  input :: "'a list"
  rank :: "nat list"
  response :: "'a list"

text \<open>One assignment \<open>response[rank[I]] = list[I]\<close>.\<close>

definition assign :: "nat \<Rightarrow> 'a frame \<Rightarrow> 'a frame option" where
  "assign I s = do {
     x \<leftarrow> subscript (input s) I;
     r \<leftarrow> subscript (rank s) I;
     if r < length (response s)
     then Some (s\<lparr>response := (response s)[r := x]\<rparr>)
     else None
   }"

text \<open>The comma fold \<open>((response[rank[I]] = list[I]), ...)\<close>, left to right.\<close>

fun scatter :: "nat list \<Rightarrow> 'a frame \<Rightarrow> 'a frame option" where
  "scatter [] s = Some s"
| "scatter (I # Is) s = do { s' \<leftarrow> assign I s; scatter Is s' }"

text \<open>
  The statements of \<open>sort_impl<N>(list, index_sequence<I...>)\<close> up to the \<open>return\<close>.
  \<open>array<Atom<T>, N> response = {}\<close> value-initialises \<open>N\<close> elements; the
  value-initialised element \<open>Atom<T>{}\<close> is the parameter \<open>z\<close>.
\<close>

definition sort_impl_body ::
    "nat \<Rightarrow> 'a \<Rightarrow> 'a::linorder list \<Rightarrow> nat list \<Rightarrow> 'a frame option" where
  "sort_impl_body N z xs Is = do {
     rs \<leftarrow> rank_init N xs Is;
     scatter Is \<lparr>input = xs, rank = rs, response = replicate N z\<rparr>
   }"

definition sort_impl :: "nat \<Rightarrow> 'a \<Rightarrow> 'a::linorder list \<Rightarrow> nat list \<Rightarrow> 'a list option" where
  "sort_impl N z xs Is = map_option response (sort_impl_body N z xs Is)"

text \<open>The entry point \<open>sort<N>(list)\<close>; the name \<open>sort\<close> is taken by the list library.\<close>

definition sort_n :: "nat \<Rightarrow> 'a \<Rightarrow> 'a::linorder list \<Rightarrow> 'a list option" where
  "sort_n N z xs = sort_impl N z xs (make_index_sequence N)"

subsection \<open>Notions used to state and prove the properties\<close>

text \<open>
  \<open>precedes xs j i\<close>: the element at index \<open>j\<close> comes before the element at index \<open>i\<close>
  when elements are compared first by value and then, for equal values, by index.
\<close>

definition precedes :: "'a::linorder list \<Rightarrow> nat \<Rightarrow> nat \<Rightarrow> bool" where
  "precedes xs j i \<longleftrightarrow> xs ! j < xs ! i \<or> (xs ! j = xs ! i \<and> j < i)"

text \<open>
  The count that the two passes are meant to produce for index \<open>i\<close>: earlier indices
  whose element is not greater, plus later indices whose element is strictly smaller.
\<close>

definition rank_of :: "nat \<Rightarrow> 'a::linorder list \<Rightarrow> nat \<Rightarrow> nat" where
  "rank_of N xs i =
     card {j. j < i \<and> xs ! i \<ge> xs ! j} + card {k. i < k \<and> k < N \<and> xs ! i > xs ! k}"

section \<open>The rank array\<close>

subsection \<open>Each pass counts\<close>

lemma subscript_Some: "i < length a \<Longrightarrow> subscript a i = Some (a ! i)"
  by (simp add: subscript_def)

lemma sort_rank_l_count:
  "I < length xs \<Longrightarrow> \<forall>J\<in>set Js. J < length xs \<Longrightarrow>
   sort_rank_l I xs Js = Some (length (filter (\<lambda>J. xs ! I \<ge> xs ! J) Js))"
  by (induction Js) (simp_all add: subscript_Some)

lemma sort_rank_u_count:
  "I < length xs \<Longrightarrow> \<forall>J\<in>set Js. 1 + I + J < length xs \<Longrightarrow>
   sort_rank_u I xs Js = Some (length (filter (\<lambda>J. xs ! I > xs ! (1 + I + J)) Js))"
  by (induction Js) (simp_all add: subscript_Some)

lemma count_upt: "length (filter P [a..<b]) = card {k. a \<le> k \<and> k < b \<and> P k}"
proof -
  have "{x. P x} \<inter> set [a..<b] = {k. a \<le> k \<and> k < b \<and> P k}"
    by auto
  then show ?thesis
    using distinct_length_filter [of "[a..<b]" P] by simp
qed

lemma lower_card:
  "length (filter (\<lambda>J. xs ! I \<ge> xs ! J) (make_index_sequence I)) =
   card {j. j < I \<and> xs ! I \<ge> xs ! j}"
  by (simp add: make_index_sequence_def count_upt)

lemma upper_card:
  assumes "I < N"
  shows "length (filter (\<lambda>J. xs ! I > xs ! (1 + I + J)) (make_index_sequence (N - I - 1))) =
         card {k. I < k \<and> k < N \<and> xs ! I > xs ! k}"
proof -
  have shift: "map (\<lambda>J. 1 + I + J) [0..<N - I - 1] = [Suc I..<N]"
    using assms map_add_upt [of "Suc I" "N - I - 1"] by (simp add: add.commute)
  have "length (filter (\<lambda>J. xs ! I > xs ! (1 + I + J)) [0..<N - I - 1]) =
        length (filter (\<lambda>k. xs ! I > xs ! k) (map (\<lambda>J. 1 + I + J) [0..<N - I - 1]))"
    by (simp add: filter_map o_def)
  also have "\<dots> = card {k. Suc I \<le> k \<and> k < N \<and> xs ! I > xs ! k}"
    unfolding shift by (rule count_upt)
  also have "{k. Suc I \<le> k \<and> k < N \<and> xs ! I > xs ! k} = {k. I < k \<and> k < N \<and> xs ! I > xs ! k}"
    by auto
  finally show ?thesis
    by (simp add: make_index_sequence_def)
qed

lemma rank_entry:
  assumes "N \<le> length xs" "I < N"
  shows "sort_rank_l I xs (make_index_sequence I) = Some (card {j. j < I \<and> xs ! I \<ge> xs ! j})"
    and "sort_rank_u I xs (make_index_sequence (N - I - 1)) =
         Some (card {k. I < k \<and> k < N \<and> xs ! I > xs ! k})"
proof -
  have "sort_rank_l I xs (make_index_sequence I) =
        Some (length (filter (\<lambda>J. xs ! I \<ge> xs ! J) (make_index_sequence I)))"
    using assms by (intro sort_rank_l_count) (auto simp: make_index_sequence_def)
  then show "sort_rank_l I xs (make_index_sequence I) = Some (card {j. j < I \<and> xs ! I \<ge> xs ! j})"
    by (simp only: lower_card)
  have "sort_rank_u I xs (make_index_sequence (N - I - 1)) =
        Some (length (filter (\<lambda>J. xs ! I > xs ! (1 + I + J)) (make_index_sequence (N - I - 1))))"
    using assms by (intro sort_rank_u_count) (auto simp: make_index_sequence_def)
  then show "sort_rank_u I xs (make_index_sequence (N - I - 1)) =
         Some (card {k. I < k \<and> k < N \<and> xs ! I > xs ! k})"
    using assms(2) by (simp only: upper_card)
qed

lemma rank_init_eq:
  "N \<le> length xs \<Longrightarrow> \<forall>I\<in>set Is. I < N \<Longrightarrow>
   rank_init N xs Is = Some (map (rank_of N xs) Is)"
proof (induction Is)
  case Nil
  show ?case by simp
next
  case (Cons I Is)
  then have I: "I < N" and rest: "rank_init N xs Is = Some (map (rank_of N xs) Is)"
    by simp_all
  note entry = rank_entry [OF \<open>N \<le> length xs\<close> I]
  show ?case
    unfolding rank_init.simps entry rest by (simp add: rank_of_def)
qed

lemma rank_of_precedes:
  assumes "i < N"
  shows "rank_of N xs i = card {j. j < N \<and> precedes xs j i}"
proof -
  let ?L = "{j. j < i \<and> xs ! i \<ge> xs ! j}"
  let ?U = "{k. i < k \<and> k < N \<and> xs ! i > xs ! k}"
  have "precedes xs j i \<longleftrightarrow> j \<in> ?L \<union> ?U" if "j < N" for j
    using that assms less_linear [of j i] by (auto simp: precedes_def)
  then have "{j. j < N \<and> precedes xs j i} = ?L \<union> ?U"
    using assms by auto
  moreover have "?L \<inter> ?U = {}" by auto
  moreover have "finite ?L" "finite ?U" by simp_all
  ultimately show ?thesis
    by (simp add: rank_of_def card_Un_disjoint)
qed

lemma precedes_trans: "precedes xs i j \<Longrightarrow> precedes xs j k \<Longrightarrow> precedes xs i k"
  by (auto simp: precedes_def)

lemma precedes_irrefl: "\<not> precedes xs i i"
  by (simp add: precedes_def)

lemma precedes_total: "i \<noteq> k \<Longrightarrow> precedes xs i k \<or> precedes xs k i"
  by (auto simp: precedes_def)

lemma rank_of_mono:
  assumes "i < N" "k < N" "precedes xs i k"
  shows "rank_of N xs i < rank_of N xs k"
proof -
  have "{j. j < N \<and> precedes xs j i} \<subseteq> {j. j < N \<and> precedes xs j k}"
    using assms(3) by (auto intro: precedes_trans)
  moreover have "i \<in> {j. j < N \<and> precedes xs j k}" "i \<notin> {j. j < N \<and> precedes xs j i}"
    using assms by (simp_all add: precedes_irrefl)
  ultimately have "{j. j < N \<and> precedes xs j i} \<subset> {j. j < N \<and> precedes xs j k}"
    by blast
  then show ?thesis
    using assms by (simp add: rank_of_precedes psubset_card_mono)
qed

lemma rank_of_less:
  assumes "i < N"
  shows "rank_of N xs i < N"
proof -
  have "{j. j < N \<and> precedes xs j i} \<subseteq> {0..<N}"
    by (simp add: subset_iff)
  moreover have "i \<in> {0..<N}" "i \<notin> {j. j < N \<and> precedes xs j i}"
    using assms by (simp_all add: precedes_irrefl)
  ultimately have "{j. j < N \<and> precedes xs j i} \<subset> {0..<N}"
    by blast
  then have "card {j. j < N \<and> precedes xs j i} < card {0..<N}"
    by (intro psubset_card_mono) simp_all
  then show ?thesis
    using assms by (simp add: rank_of_precedes)
qed

lemma rank_of_inj: "inj_on (rank_of N xs) {0..<N}"
proof (rule inj_onI)
  fix i k
  assume "i \<in> {0..<N}" "k \<in> {0..<N}" and eq: "rank_of N xs i = rank_of N xs k"
  then have "i < N" "k < N" by simp_all
  show "i = k"
  proof (rule ccontr)
    assume "i \<noteq> k"
    then consider "precedes xs i k" | "precedes xs k i"
      using precedes_total by blast
    then show False
      using rank_of_mono [of i N k xs] rank_of_mono [of k N i xs] \<open>i < N\<close> \<open>k < N\<close> eq
      by cases simp_all
  qed
qed

lemma rank_of_image: "rank_of N xs ` {0..<N} = {0..<N}"
proof (rule endo_inj_surj)
  show "finite {0..<N}" by simp
  show "rank_of N xs ` {0..<N} \<subseteq> {0..<N}"
    using rank_of_less [of _ N xs] by auto
  show "inj_on (rank_of N xs) {0..<N}" by (rule rank_of_inj)
qed

section \<open>The scatter step\<close>

lemma assign_Some:
  "I < length (input s) \<Longrightarrow> I < length (rank s) \<Longrightarrow> rank s ! I < length (response s) \<Longrightarrow>
   assign I s = Some (s\<lparr>response := (response s)[rank s ! I := input s ! I]\<rparr>)"
  by (simp add: assign_def subscript_Some)

lemma scatter_spec:
  "\<forall>I\<in>set Is. I < length (input s) \<and> I < length (rank s) \<and> rank s ! I < length (response s) \<Longrightarrow>
   \<exists>s'. scatter Is s = Some s' \<and> input s' = input s \<and> rank s' = rank s \<and>
        length (response s') = length (response s) \<and>
        (\<forall>p. p \<notin> (\<lambda>I. rank s ! I) ` set Is \<longrightarrow> response s' ! p = response s ! p) \<and>
        (distinct (map (\<lambda>I. rank s ! I) Is) \<longrightarrow>
           (\<forall>I\<in>set Is. response s' ! (rank s ! I) = input s ! I))"
proof (induction Is arbitrary: s)
  case Nil
  show ?case by simp
next
  case (Cons I Is)
  let ?s1 = "s\<lparr>response := (response s)[rank s ! I := input s ! I]\<rparr>"
  have head: "assign I s = Some ?s1"
    using Cons.prems by (simp add: assign_Some)
  have r: "rank s ! I < length (response s)"
    using Cons.prems by simp
  have "\<forall>J\<in>set Is. J < length (input ?s1) \<and> J < length (rank ?s1) \<and>
          rank ?s1 ! J < length (response ?s1)"
    using Cons.prems by simp
  from Cons.IH [OF this] obtain s' where
    run: "scatter Is ?s1 = Some s'" and
    same: "input s' = input s" "rank s' = rank s" "length (response s') = length (response s)" and
    keep: "\<And>p. p \<notin> (\<lambda>I. rank s ! I) ` set Is \<Longrightarrow> response s' ! p = response ?s1 ! p" and
    put: "distinct (map (\<lambda>I. rank s ! I) Is) \<Longrightarrow> \<forall>J\<in>set Is. response s' ! (rank s ! J) = input s ! J"
    by auto
  have "scatter (I # Is) s = Some s'"
    using head run by simp
  moreover have "response s' ! p = response s ! p" if "p \<notin> (\<lambda>I. rank s ! I) ` set (I # Is)" for p
  proof -
    from that have "p \<notin> (\<lambda>I. rank s ! I) ` set Is" "p \<noteq> rank s ! I" by auto
    then show ?thesis using keep [of p] by simp
  qed
  moreover have "response s' ! (rank s ! J) = input s ! J"
    if d: "distinct (map (\<lambda>I. rank s ! I) (I # Is))" and J: "J \<in> set (I # Is)" for J
  proof (cases "J \<in> set Is")
    case True
    then show ?thesis using put d by simp
  next
    case False
    with J have "J = I" by simp
    moreover from d have "rank s ! I \<notin> (\<lambda>I. rank s ! I) ` set Is" by simp
    ultimately show ?thesis using keep [of "rank s ! I"] r by simp
  qed
  ultimately show ?case
    using same by blast
qed

lemma rank_list:
  "length (map (rank_of N xs) [0..<N]) = N"
  "i < N \<Longrightarrow> map (rank_of N xs) [0..<N] ! i = rank_of N xs i"
  "distinct (map (rank_of N xs) [0..<N])"
  "set (map (rank_of N xs) [0..<N]) = {0..<N}"
  by (simp_all add: distinct_map rank_of_inj rank_of_image)

lemma sort_impl_body_spec:
  assumes "N \<le> length xs"
  shows "\<exists>ys. sort_impl_body N z xs (make_index_sequence N) =
              Some \<lparr>input = xs, rank = map (rank_of N xs) [0..<N], response = ys\<rparr> \<and>
            length ys = N \<and> (\<forall>i<N. ys ! rank_of N xs i = xs ! i)"
proof -
  let ?rs = "map (rank_of N xs) [0..<N]"
  let ?s = "\<lparr>input = xs, rank = ?rs, response = replicate N z\<rparr>"
  have ranks: "rank_init N xs [0..<N] = Some ?rs"
    using assms by (simp add: rank_init_eq)
  have "\<forall>I\<in>set [0..<N]. I < length (input ?s) \<and> I < length (rank ?s) \<and>
          rank ?s ! I < length (response ?s)"
    using assms by (simp add: rank_of_less)
  from scatter_spec [OF this] obtain s' where
    run: "scatter [0..<N] ?s = Some s'" and
    same: "input s' = xs" "rank s' = ?rs" "length (response s') = N" and
    put: "distinct (map (\<lambda>I. ?rs ! I) [0..<N]) \<Longrightarrow> \<forall>I\<in>set [0..<N]. response s' ! (?rs ! I) = xs ! I"
    by auto
  have eq: "map ((!) ?rs) [0..<N] = ?rs"
    using map_nth [of ?rs] by simp
  have "distinct (map (\<lambda>I. ?rs ! I) [0..<N])"
    unfolding eq by (rule rank_list(3))
  from put [OF this] have "\<forall>i<N. response s' ! rank_of N xs i = xs ! i"
    by simp
  moreover have "s' = \<lparr>input = xs, rank = ?rs, response = response s'\<rparr>"
    using same by simp
  moreover have "sort_impl_body N z xs (make_index_sequence N) = Some s'"
    using ranks run by (simp add: sort_impl_body_def make_index_sequence_def)
  ultimately show ?thesis
    using same(3) by (intro exI [of _ "response s'"]) simp
qed

lemma sort_n_spec:
  assumes "N \<le> length xs"
  shows "\<exists>ys. sort_n N z xs = Some ys \<and> length ys = N \<and> (\<forall>i<N. ys ! rank_of N xs i = xs ! i)"
  using sort_impl_body_spec [OF assms, of z] by (auto simp: sort_n_def sort_impl_def)

section \<open>The value returned\<close>

lemma take_as_map: "N \<le> length xs \<Longrightarrow> take N xs = map (\<lambda>i. xs ! i) [0..<N]"
  by (rule nth_equalityI) simp_all

lemma placed_sorted:
  assumes len: "length ys = N" and put: "\<forall>i<N. ys ! rank_of N xs i = xs ! i"
  shows "sorted ys"
  unfolding sorted_iff_nth_mono
proof (intro allI impI)
  fix p q
  assume "p \<le> q" "q < length ys"
  then have "p \<in> {0..<N}" "q \<in> {0..<N}"
    using len by simp_all
  then have "p \<in> rank_of N xs ` {0..<N}" "q \<in> rank_of N xs ` {0..<N}"
    by (simp_all only: rank_of_image)
  then obtain i k where i: "i < N" "rank_of N xs i = p" and k: "k < N" "rank_of N xs k = q"
    by auto
  have "\<not> precedes xs k i"
    using rank_of_mono [of k N i xs] i k \<open>p \<le> q\<close> by auto
  then have "xs ! i \<le> xs ! k"
    using precedes_total [of i k xs] by (cases "i = k") (auto simp: precedes_def)
  then show "ys ! p \<le> ys ! q"
    using put i k by auto
qed

lemma placed_mset:
  assumes N: "N \<le> length xs" and len: "length ys = N"
    and put: "\<forall>i<N. ys ! rank_of N xs i = xs ! i"
  shows "mset ys = mset (take N xs)"
proof -
  let ?rs = "map (rank_of N xs) [0..<N]"
  have perm: "mset ?rs = mset [0..<N]"
    using set_eq_iff_mset_eq_distinct [of ?rs "[0..<N]"] rank_list(3,4) [of N xs] by simp
  have "ys = map (\<lambda>p. ys ! p) [0..<N]"
    using len by (intro nth_equalityI) simp_all
  then have "mset ys = image_mset (\<lambda>p. ys ! p) (mset [0..<N])"
    by (metis mset_map)
  also have "\<dots> = image_mset (\<lambda>p. ys ! p) (mset ?rs)"
    by (simp only: perm)
  also have "\<dots> = mset (map (\<lambda>i. ys ! rank_of N xs i) [0..<N])"
    by (simp add: multiset.map_comp o_def)
  also have "map (\<lambda>i. ys ! rank_of N xs i) [0..<N] = map (\<lambda>i. xs ! i) [0..<N]"
    using put by simp
  finally show ?thesis
    using N by (simp only: take_as_map)
qed

lemma sort_n_sort:
  assumes "N \<le> length xs"
  shows "sort_n N z xs = Some (sort (take N xs))"
proof -
  from sort_n_spec [OF assms, of z] obtain ys where
    ys: "sort_n N z xs = Some ys" "length ys = N" "\<forall>i<N. ys ! rank_of N xs i = xs ! i"
    by blast
  have "sort (take N xs) = ys"
    using placed_mset [OF assms ys(2,3)] placed_sorted [OF ys(2,3)]
    by (rule properties_for_sort)
  with ys(1) show ?thesis by simp
qed

lemma assign_reads:
  "assign I s = Some s' \<Longrightarrow> I < length (input s) \<and> input s' = input s"
  by (auto simp: assign_def subscript_def split: if_splits bind_splits)

lemma scatter_reads:
  "scatter Is s = Some s' \<Longrightarrow> (\<forall>I\<in>set Is. I < length (input s)) \<and> input s' = input s"
proof (induction Is arbitrary: s)
  case Nil
  then show ?case by simp
next
  case (Cons I Is)
  then obtain s1 where "assign I s = Some s1" "scatter Is s1 = Some s'"
    by (auto split: bind_splits)
  then show ?case
    using Cons.IH [of s1] assign_reads [of I s s1] by auto
qed

lemma sort_n_short:
  assumes "length xs < N"
  shows "sort_n N z xs = None"
proof (rule ccontr)
  assume "sort_n N z xs \<noteq> None"
  then obtain rs s' where
    "scatter [0..<N] \<lparr>input = xs, rank = rs, response = replicate N z\<rparr> = Some s'"
    by (auto simp: sort_n_def sort_impl_def sort_impl_body_def make_index_sequence_def
             split: bind_splits)
  from scatter_reads [OF this] have "\<forall>I\<in>set [0..<N]. I < length xs"
    by simp
  with assms show False by auto
qed

lemma sorted_adjacent:
  "sorted ys \<Longrightarrow> p + 1 < length ys \<Longrightarrow> ys ! p \<le> ys ! (p + 1)"
  by (simp add: sorted_iff_nth_Suc)

lemma body_rank_init:
  assumes "N \<le> length xs"
  shows "rank_init N xs (make_index_sequence N) = Some (map (rank_of N xs) [0..<N])"
  using assms by (simp add: make_index_sequence_def rank_init_eq)

lemma sort_n_Some_length:
  assumes "sort_n N z xs = Some ys"
  shows "N \<le> length xs"
  using assms sort_n_short [of xs N z] by (cases "N \<le> length xs") simp_all

section \<open>Properties of the sort\<close>

text \<open>
  Claim C1. For every \<open>N\<close> and every input with at least \<open>N\<close> elements of a linearly
  ordered type, \<open>sort<N>\<close> returns, and what it returns is sorted non-decreasingly: every
  adjacent pair of output positions \<open>p\<close>, \<open>p + 1\<close> below \<open>N\<close> satisfies
  \<open>output[p] \<le> output[p + 1]\<close>.
\<close>

theorem sort_n_sorted:
  assumes "N \<le> length xs"
  shows "\<exists>ys. sort_n N z xs = Some ys \<and> length ys = N \<and> sorted ys \<and>
              (\<forall>p. p + 1 < N \<longrightarrow> ys ! p \<le> ys ! (p + 1))"
proof -
  from sort_n_spec [OF assms, of z] obtain ys where
    ys: "sort_n N z xs = Some ys" "length ys = N" "\<forall>i<N. ys ! rank_of N xs i = xs ! i"
    by blast
  have "sorted ys"
    using ys(2,3) by (rule placed_sorted)
  then show ?thesis
    using ys(1,2) sorted_adjacent [of ys] by blast
qed

theorem sort_n_sorted_witness:
  "(6::nat) \<le> length [5, 7, 3, 1, -5, 9 :: int] \<and>
   (\<exists>ys. sort_n 6 0 [5, 7, 3, 1, -5, 9 :: int] = Some ys \<and> length ys = 6 \<and> sorted ys)"
proof -
  have h: "(6::nat) \<le> length [5, 7, 3, 1, -5, 9 :: int]" by simp
  from sort_n_sorted [OF h, of 0] show ?thesis
    using h by blast
qed

text \<open>
  Claim C2. The multiset of the output's values is the multiset of the first \<open>N\<close> elements
  of the input: nothing is dropped, duplicated or altered, and the value-initialised
  elements of \<open>response\<close> are all overwritten.
\<close>

theorem sort_n_mset:
  assumes "N \<le> length xs"
  shows "\<exists>ys. sort_n N z xs = Some ys \<and> mset ys = mset (take N xs)"
proof -
  from sort_n_spec [OF assms, of z] obtain ys where
    ys: "sort_n N z xs = Some ys" "length ys = N" "\<forall>i<N. ys ! rank_of N xs i = xs ! i"
    by blast
  then show ?thesis
    using placed_mset [OF assms ys(2,3)] by blast
qed

theorem sort_n_mset_witness:
  "(3::nat) \<le> length [2, 2, 1, 8 :: int] \<and>
   (\<exists>ys. sort_n 3 0 [2, 2, 1, 8 :: int] = Some ys \<and> mset ys = {#1, 2, 2#})"
proof -
  have h: "(3::nat) \<le> length [2, 2, 1, 8 :: int]" by simp
  from sort_n_mset [OF h, of 0] show ?thesis
    using h by (simp add: add_mset_commute)
qed

text \<open>
  Claim C3. The array \<open>rank\<close> that \<open>sort_impl\<close> computes is a permutation of
  \<open>{0, ..., N - 1}\<close>, whether or not values repeat: it has \<open>N\<close> entries, they are pairwise
  distinct, they are exactly the numbers below \<open>N\<close>, and no two source indices are sent to
  the same destination.
\<close>

theorem rank_permutation:
  assumes "N \<le> length xs"
  shows "\<exists>s. sort_impl_body N z xs (make_index_sequence N) = Some s \<and>
             rank_init N xs (make_index_sequence N) = Some (rank s) \<and>
             length (rank s) = N \<and> distinct (rank s) \<and> set (rank s) = {0..<N} \<and>
             inj_on (\<lambda>i. rank s ! i) {0..<N}"
proof -
  let ?rs = "map (rank_of N xs) [0..<N]"
  from sort_impl_body_spec [OF assms, of z] obtain ys where
    "sort_impl_body N z xs (make_index_sequence N) =
       Some \<lparr>input = xs, rank = ?rs, response = ys\<rparr>"
    by blast
  moreover have "inj_on (\<lambda>i. ?rs ! i) {0..<N}"
    by (rule inj_on_nth) (simp_all add: rank_list)
  ultimately show ?thesis
    using body_rank_init [OF assms] rank_list(1,3,4) [of N xs]
    by (intro exI [of _ "\<lparr>input = xs, rank = ?rs, response = ys\<rparr>"]) simp
qed

theorem rank_permutation_witness:
  "(3::nat) \<le> length [3, 3, 3 :: int] \<and>
   (\<exists>s. sort_impl_body 3 0 [3, 3, 3 :: int] (make_index_sequence 3) = Some s \<and>
        distinct (rank s) \<and> set (rank s) = {0..<3})"
proof -
  have h: "(3::nat) \<le> length [3, 3, 3 :: int]" by simp
  from rank_permutation [OF h, of 0] show ?thesis
    using h by blast
qed

text \<open>
  Claim C4. For every index \<open>i\<close> below \<open>N\<close>, \<open>rank[i]\<close> is the number of earlier indices
  \<open>j < i\<close> with \<open>list[i] >= list[j]\<close> plus the number of later indices \<open>k > i\<close> (below
  \<open>N\<close>) with \<open>list[i] > list[k]\<close>.
\<close>

theorem rank_formula:
  assumes "N \<le> length xs"
  shows "\<exists>rs. rank_init N xs (make_index_sequence N) = Some rs \<and> length rs = N \<and>
              (\<forall>i<N. rs ! i = card {j. j < i \<and> xs ! i \<ge> xs ! j} +
                               card {k. i < k \<and> k < N \<and> xs ! i > xs ! k})"
  using body_rank_init [OF assms] by (simp add: rank_of_def)

theorem rank_formula_witness:
  "(3::nat) \<le> length [2, 2, 1 :: int] \<and>
   (\<exists>rs. rank_init 3 [2, 2, 1 :: int] (make_index_sequence 3) = Some rs \<and> length rs = 3 \<and>
         rs ! 1 = card {j. j < 1 \<and> [2, 2, 1 :: int] ! 1 \<ge> [2, 2, 1] ! j} +
                  card {k. 1 < k \<and> k < 3 \<and> [2, 2, 1 :: int] ! 1 > [2, 2, 1] ! k})"
proof -
  have h: "(3::nat) \<le> length [2, 2, 1 :: int]" by simp
  from rank_formula [OF h] obtain rs where
    rs: "rank_init 3 [2, 2, 1 :: int] (make_index_sequence 3) = Some rs" "length rs = 3"
      "\<forall>i<3. rs ! i = card {j. j < i \<and> [2, 2, 1 :: int] ! i \<ge> [2, 2, 1] ! j} +
                       card {k. i < k \<and> k < 3 \<and> [2, 2, 1 :: int] ! i > [2, 2, 1] ! k}"
    by blast
  from rs(3) have "rs ! 1 = card {j. j < 1 \<and> [2, 2, 1 :: int] ! 1 \<ge> [2, 2, 1] ! j} +
                  card {k. 1 < k \<and> k < 3 \<and> [2, 2, 1 :: int] ! 1 > [2, 2, 1] ! k}"
    by (simp del: nth_Cons_numeral)
  with rs(1,2) h show ?thesis by blast
qed

text \<open>
  Claim C5. \<open>sort<N>\<close> returns a sequence of exactly \<open>N\<close> elements, and for \<open>N = 0\<close> it
  returns the empty sequence, whatever the input. (With the empty pack the initialiser of
  \<open>rank\<close> has no element and the array has length zero; the model is the evaluation of
  that instantiation.)
\<close>

theorem sort_n_length:
  "(N \<le> length xs \<longrightarrow> (\<exists>ys. sort_n N z xs = Some ys \<and> length ys = N)) \<and>
   sort_n 0 z xs = Some []"
proof
  show "N \<le> length xs \<longrightarrow> (\<exists>ys. sort_n N z xs = Some ys \<and> length ys = N)"
    using sort_n_spec [of N xs z] by blast
  show "sort_n 0 z xs = Some []"
    by (simp add: sort_n_def sort_impl_def sort_impl_body_def make_index_sequence_def)
qed

theorem sort_n_length_witness:
  "(1::nat) \<le> length [1 :: int] \<and>
   (\<exists>ys. sort_n 1 0 [1 :: int] = Some ys \<and> length ys = 1) \<and>
   sort_n 0 0 [1 :: int] = Some []"
  using sort_n_length [of 1 "[1 :: int]" 0] sort_n_length [of 0 "[1 :: int]" 0] by simp

text \<open>
  Claim C6. Two indices \<open>i < k\<close> with equal elements get ranks \<open>rank[i] < rank[k]\<close>, and
  the element of every index \<open>i\<close> ends at position \<open>rank[i]\<close> of the output: equal keys
  keep their input order.
\<close>

theorem rank_stable:
  assumes "N \<le> length xs"
  shows "\<exists>s. sort_impl_body N z xs (make_index_sequence N) = Some s \<and>
             sort_n N z xs = Some (response s) \<and>
             (\<forall>i k. i < k \<and> k < N \<and> xs ! i = xs ! k \<longrightarrow> rank s ! i < rank s ! k) \<and>
             (\<forall>i<N. response s ! (rank s ! i) = xs ! i)"
proof -
  let ?rs = "map (rank_of N xs) [0..<N]"
  from sort_impl_body_spec [OF assms, of z] obtain ys where
    body: "sort_impl_body N z xs (make_index_sequence N) =
       Some \<lparr>input = xs, rank = ?rs, response = ys\<rparr>" and
    put: "\<forall>i<N. ys ! rank_of N xs i = xs ! i"
    by blast
  have "rank_of N xs i < rank_of N xs k" if "i < k" "k < N" "xs ! i = xs ! k" for i k
    using that by (intro rank_of_mono) (simp_all add: precedes_def)
  then have "\<forall>i k. i < k \<and> k < N \<and> xs ! i = xs ! k \<longrightarrow> ?rs ! i < ?rs ! k"
    by simp
  moreover have "\<forall>i<N. ys ! (?rs ! i) = xs ! i"
    using put by simp
  moreover have "sort_n N z xs = Some ys"
    using body by (simp add: sort_n_def sort_impl_def)
  ultimately show ?thesis
    using body by (intro exI [of _ "\<lparr>input = xs, rank = ?rs, response = ys\<rparr>"]) simp
qed

theorem rank_stable_witness:
  "(3::nat) \<le> length [2, 2, 1 :: int] \<and>
   (\<exists>s. sort_impl_body 3 0 [2, 2, 1 :: int] (make_index_sequence 3) = Some s \<and>
        sort_n 3 0 [2, 2, 1 :: int] = Some (response s) \<and>
        rank s ! 0 < rank s ! 1 \<and> response s ! (rank s ! 0) = 2 \<and> response s ! (rank s ! 1) = 2)"
proof -
  have h: "(3::nat) \<le> length [2, 2, 1 :: int]" by simp
  from rank_stable [OF h, of 0] obtain s where
    s: "sort_impl_body 3 0 [2, 2, 1 :: int] (make_index_sequence 3) = Some s"
      "sort_n 3 0 [2, 2, 1 :: int] = Some (response s)"
      "\<forall>i k. i < k \<and> k < 3 \<and> [2, 2, 1 :: int] ! i = [2, 2, 1] ! k \<longrightarrow> rank s ! i < rank s ! k"
      "\<forall>i<3. response s ! (rank s ! i) = [2, 2, 1 :: int] ! i"
    by blast
  have "rank s ! 0 < rank s ! 1"
    using s(3) [rule_format, of 0 1] by simp
  moreover have "response s ! (rank s ! 0) = 2"
    using s(4) [rule_format, of 0] by simp
  moreover have "response s ! (rank s ! 1) = 2"
    using s(4) [rule_format, of 1] by simp
  ultimately show ?thesis
    using h s(1,2) by blast
qed

text \<open>
  Claim C7. Sorting a sequence whose first \<open>N\<close> elements are already in non-decreasing
  order returns exactly these \<open>N\<close> elements (the whole input when it has \<open>N\<close> elements),
  and sorting an output of \<open>sort<N>\<close> again returns it unchanged.
\<close>

theorem sort_n_idempotent:
  "(N \<le> length xs \<and> sorted (take N xs) \<longrightarrow> sort_n N z xs = Some (take N xs)) \<and>
   (sort_n N z xs = Some ys \<longrightarrow> sort_n N z ys = Some ys)"
proof (intro conjI impI)
  assume "N \<le> length xs \<and> sorted (take N xs)"
  then show "sort_n N z xs = Some (take N xs)"
    by (simp add: sort_n_sort sorted_sort_id)
next
  assume run: "sort_n N z xs = Some ys"
  then have N: "N \<le> length xs"
    by (rule sort_n_Some_length)
  with run have ys: "ys = sort (take N xs)"
    by (simp add: sort_n_sort)
  then have "length ys = N" "sorted ys"
    using N by simp_all
  then show "sort_n N z ys = Some ys"
    by (simp add: sort_n_sort sorted_sort_id)
qed

theorem sort_n_idempotent_witness:
  "(3::nat) \<le> length [1, 2, 2 :: int] \<and> sorted (take 3 [1, 2, 2 :: int]) \<and>
   sort_n 3 0 [1, 2, 2 :: int] = Some [1, 2, 2] \<and>
   sort_n 3 0 [2, 2, 1 :: int] = Some [1, 2, 2] \<and>
   sort_n 3 0 [1, 2, 2 :: int] = Some [1, 2, 2]"
proof -
  have h: "(3::nat) \<le> length [1, 2, 2 :: int] \<and> sorted (take 3 [1, 2, 2 :: int])" by simp
  have r: "sort_n 3 0 [2, 2, 1 :: int] = Some [1, 2, 2]" by code_simp
  from sort_n_idempotent [of 3 "[1, 2, 2 :: int]" 0] h
  have "sort_n 3 0 [1, 2, 2 :: int] = Some [1, 2, 2]" by simp
  moreover from sort_n_idempotent [of 3 "[2, 2, 1 :: int]" 0 "[1, 2, 2]"] r
  have "sort_n 3 0 [1, 2, 2 :: int] = Some [1, 2, 2]" by blast
  ultimately show ?thesis using h r by blast
qed

text \<open>
  Claim C8. The call does not change its input: in the state that \<open>sort_impl\<close> reaches
  before its \<open>return\<close> the parameter \<open>list\<close> holds what the caller passed, for every
  index pack; and for an input of at least \<open>N\<close> elements that state exists and the value
  returned is its freshly built \<open>response\<close>.
\<close>

theorem sort_impl_frame:
  "(sort_impl_body N z xs Is = Some s \<longrightarrow> input s = xs) \<and>
   (N \<le> length xs \<longrightarrow>
      (\<exists>s. sort_impl_body N z xs (make_index_sequence N) = Some s \<and> input s = xs \<and>
           sort_n N z xs = Some (response s)))"
proof (intro conjI impI)
  assume "sort_impl_body N z xs Is = Some s"
  then obtain rs where
    "scatter Is \<lparr>input = xs, rank = rs, response = replicate N z\<rparr> = Some s"
    by (auto simp: sort_impl_body_def split: bind_splits)
  from scatter_reads [OF this] show "input s = xs"
    by simp
next
  assume "N \<le> length xs"
  from sort_impl_body_spec [OF this, of z] obtain ys where
    body: "sort_impl_body N z xs (make_index_sequence N) =
       Some \<lparr>input = xs, rank = map (rank_of N xs) [0..<N], response = ys\<rparr>"
    by blast
  then have "sort_n N z xs = Some ys"
    by (simp add: sort_n_def sort_impl_def)
  with body show "\<exists>s. sort_impl_body N z xs (make_index_sequence N) = Some s \<and> input s = xs \<and>
           sort_n N z xs = Some (response s)"
    by (intro exI [of _ "\<lparr>input = xs, rank = map (rank_of N xs) [0..<N], response = ys\<rparr>"]) simp
qed

theorem sort_impl_frame_witness:
  "(3::nat) \<le> length [2, 2, 1 :: int] \<and>
   (\<exists>s. sort_impl_body 3 0 [2, 2, 1 :: int] (make_index_sequence 3) = Some s \<and>
        input s = [2, 2, 1] \<and> sort_n 3 0 [2, 2, 1 :: int] = Some (response s))"
  using sort_impl_frame [of 3 0 "[2, 2, 1 :: int]"] by simp

text \<open>
  Claim C9. For an input of at least \<open>N\<close> elements no subscript of \<open>sort<N>\<close> is out of
  bounds: the run returns. It returns the same when the input is cut to exactly \<open>N\<close>
  elements, where any subscript of \<open>N\<close> or more would fail, and each of the two rank
  passes returns there for every \<open>I\<close> below \<open>N\<close>; \<open>rank\<close> and \<open>response\<close> have exactly
  \<open>N\<close> elements in every run.
\<close>

theorem sort_n_in_bounds:
  assumes "N \<le> length xs"
  shows "(\<exists>ys. sort_n N z xs = Some ys) \<and> sort_n N z (take N xs) = sort_n N z xs \<and>
         (\<forall>I<N. (\<exists>l. sort_rank_l I (take N xs) (make_index_sequence I) = Some l) \<and>
                 (\<exists>u. sort_rank_u I (take N xs) (make_index_sequence (N - I - 1)) = Some u))"
proof -
  have len: "N \<le> length (take N xs)"
    using assms by simp
  show ?thesis
    using sort_n_sort [OF assms, of z] sort_n_sort [OF len, of z] rank_entry [OF len]
    by simp
qed

theorem sort_n_in_bounds_witness:
  "(2::nat) \<le> length [3, 1, 0 :: int] \<and>
   (\<exists>ys. sort_n 2 0 [3, 1, 0 :: int] = Some ys) \<and>
   sort_n 2 0 (take 2 [3, 1, 0 :: int]) = sort_n 2 0 [3, 1, 0]"
proof -
  have h: "(2::nat) \<le> length [3, 1, 0 :: int]" by simp
  from sort_n_in_bounds [OF h, of 0] show ?thesis
    using h by blast
qed

text \<open>
  Claim C10. The result depends only on the first \<open>N\<close> elements of the input: two inputs
  that agree at the indices below \<open>N\<close> give the same result, whatever they hold after
  these, and whatever the value-initialised element is.
\<close>

theorem sort_n_prefix:
  assumes "N \<le> length xs" "N \<le> length ys" "\<forall>i<N. xs ! i = ys ! i"
  shows "sort_n N z xs = sort_n N z' ys"
proof -
  have "take N xs = take N ys"
    using assms by (intro nth_equalityI) simp_all
  then show ?thesis
    using assms(1,2) by (simp add: sort_n_sort)
qed

theorem sort_n_prefix_witness:
  "(3::nat) \<le> length [3, 1, 2, 99 :: int] \<and> (3::nat) \<le> length [3, 1, 2, -7, 8 :: int] \<and>
   sort_n 3 0 [3, 1, 2, 99 :: int] = sort_n 3 5 [3, 1, 2, -7, 8]"
proof -
  have h: "(3::nat) \<le> length [3, 1, 2, 99 :: int]" "(3::nat) \<le> length [3, 1, 2, -7, 8 :: int]"
    by simp_all
  have e: "\<forall>i<3. [3, 1, 2, 99 :: int] ! i = [3, 1, 2, -7, 8] ! i"
    by (simp add: less_Suc_eq eval_nat_numeral)
  from sort_n_prefix [OF h e, of 0 5] show ?thesis
    using h by simp
qed

end
